theory Spec2Isabelle
  imports Main "HOL-Library.Multiset"
begin

section \<open>Machine integers\<close>

text \<open>
  The C code computes on \<open>uint32_t\<close>.  Values are modelled as natural numbers and every
  addition or multiplication that the C type would wrap is passed through \<open>u32\<close>.
  Division and remainder cannot overflow; a zero divisor is undefined behaviour in C and
  is modelled as the absence of a result (\<open>None\<close>).  The field \<open>factor_count\<close> of a
  cache entry is a \<open>uint8_t\<close>, hence \<open>u8\<close>.
\<close>

definition u32 :: "nat \<Rightarrow> nat" where
  "u32 x = x mod 4294967296"

definition u8 :: "nat \<Rightarrow> nat" where
  "u8 x = x mod 256"

definition MAX_FACTORS :: int where
  "MAX_FACTORS = 64"

definition MAX_CACHE_SIZE :: int where
  "MAX_CACHE_SIZE = 1000"

section \<open>The factorization cache\<close>

text \<open>
  \<open>FactorCache\<close> is the C struct of the same name; \<open>factors\<close> is its array of
  \<open>MAX_FACTORS\<close> slots.  The global array \<open>factor_cache\<close> is a store from (C \<open>int\<close>)
  indices to entries, next to the global counter \<open>cache_size\<close>.
\<close>

record FactorCache =
  number :: nat
  factor_count :: nat
  factors :: "nat list"

record cache_state =
  factor_cache :: "int \<Rightarrow> FactorCache"
  cache_size :: int

definition zero_entry :: FactorCache where
  "zero_entry = \<lparr>number = 0, factor_count = 0, factors = replicate 64 0\<rparr>"

text \<open>Static storage is zero-initialised; \<open>cache_size\<close> starts at 0.\<close>

definition initial_cache :: cache_state where
  "initial_cache = \<lparr>factor_cache = (\<lambda>i. zero_entry), cache_size = 0\<rparr>"

text \<open>
  \<open>check_cache\<close>: the linear scan \<open>for (i = 0; i < cache_size; i++)\<close>.  \<open>Some fs\<close> is the
  return value 1 together with the \<open>factor_count\<close> elements copied into the caller's
  buffer; \<open>None\<close> is the return value 0.
\<close>

function check_cache_from :: "int \<Rightarrow> nat \<Rightarrow> cache_state \<Rightarrow> nat list option" where
  "check_cache_from i n s =
     (if i < cache_size s
      then (if number (factor_cache s i) = n
            then Some (take (factor_count (factor_cache s i)) (factors (factor_cache s i)))
            else check_cache_from (i + 1) n s)
      else None)"
  by pat_completeness auto
termination
  by (relation "measure (\<lambda>(i, n, s). nat (cache_size s - i))") auto

declare check_cache_from.simps [simp del]

definition check_cache :: "nat \<Rightarrow> cache_state \<Rightarrow> nat list option" where
  "check_cache n s = check_cache_from 0 n s"

text \<open>
  \<open>add_to_cache\<close>: the argument list \<open>fs\<close> stands for the first \<open>factor_count\<close> elements
  of the caller's buffer, so \<open>factor_count\<close> is \<open>length fs\<close>.  The \<open>memcpy\<close> overwrites the
  first \<open>factor_count\<close> slots of the entry and leaves the others as they were.
\<close>

definition add_to_cache :: "nat \<Rightarrow> nat list \<Rightarrow> cache_state \<Rightarrow> cache_state" where
  "add_to_cache n fs s =
     (if cache_size s \<ge> MAX_CACHE_SIZE \<or> int (length fs) \<ge> MAX_FACTORS then s
      else s\<lparr>factor_cache := (factor_cache s)(cache_size s :=
                 \<lparr>number = n,
                  factor_count = u8 (length fs),
                  factors = fs @ drop (length fs) (factors (factor_cache s (cache_size s)))\<rparr>),
             cache_size := cache_size s + 1\<rparr>)"

definition clear_factorization_cache :: "cache_state \<Rightarrow> cache_state" where
  "clear_factorization_cache s = \<lparr>factor_cache = (\<lambda>i. zero_entry), cache_size = 0\<rparr>"

definition get_cache_stats :: "cache_state \<Rightarrow> int \<times> int" where
  "get_cache_stats s = (cache_size s, MAX_CACHE_SIZE)"

section \<open>Integer square root\<close>

text \<open>
  The loop \<open>while (y < x) { x = y; y = (x + n / x) / 2; }\<close> on the state \<open>(x, y)\<close>.
  \<open>None\<close> is the division \<open>n / x\<close> with \<open>x = 0\<close>.  The loop ends because \<open>x\<close> decreases.
\<close>

function isqrt_loop :: "nat \<Rightarrow> nat \<Rightarrow> nat \<Rightarrow> nat option" where
  "isqrt_loop n x y =
     (if y < x
      then (if y = 0 then None
            else isqrt_loop n y (u32 (y + n div y) div 2))
      else Some x)"
  by pat_completeness auto
termination
  by (relation "measure (\<lambda>(n, x, y). x)") auto

declare isqrt_loop.simps [simp del]

definition isqrt :: "nat \<Rightarrow> nat option" where
  "isqrt n = (if n < 2 then Some n else isqrt_loop n n (u32 (n + 1) div 2))"

section \<open>The trial-division factorizer\<close>

definition small_primes :: "nat list" where
  "small_primes = [2, 3, 5, 7, 11, 13, 17, 19, 23, 29, 31, 37, 41, 43, 47, 53, 59, 61, 67, 71]"

text \<open>
  The inner loop \<open>while (n % p == 0) { factors[factor_count++] = p; n /= p; }\<close>.
  The buffer prefix written so far is the list \<open>fs\<close>.  The loop does not end for
  \<open>n = 0\<close>, so the function is partial: \<open>None\<close> is no result.
\<close>

partial_function (option) divide_out ::
  "nat \<Rightarrow> nat \<Rightarrow> nat list \<Rightarrow> (nat \<times> nat list) option" where
  "divide_out p n fs =
     (if p = 0 then None
      else if n mod p = 0 then divide_out p (n div p) (fs @ [p])
      else Some (n, fs))"

text \<open>
  The \<open>for\<close> loop over the small primes, as a recursion over the primes still to visit.
  The result is the cofactor \<open>n\<close> and the buffer prefix at the loop's exit (by either
  \<open>break\<close> or exhaustion of the table).
\<close>

fun small_primes_loop :: "nat list \<Rightarrow> nat \<Rightarrow> nat list \<Rightarrow> (nat \<times> nat list) option" where
  "small_primes_loop [] n fs = Some (n, fs)"
| "small_primes_loop (p # ps) n fs =
     (case divide_out p n fs of
        None \<Rightarrow> None
      | Some (n', fs') \<Rightarrow>
          if n' = 1 then Some (n', fs')
          else if u32 (p * p) > n' then Some (n', if n' > 1 then fs' @ [n'] else fs')
          else small_primes_loop ps n' fs')"

text \<open>
  The inner loop of the odd-candidate search, which also recomputes \<open>sqrt_n\<close>:
  \<open>while (n % candidate == 0) { factors[factor_count++] = candidate; n /= candidate;
  sqrt_n = isqrt(n); }\<close>.  The wheel factorizer has the same inner loop.
\<close>

partial_function (option) divide_out_sqrt ::
  "nat \<Rightarrow> nat \<Rightarrow> nat list \<Rightarrow> nat \<Rightarrow> (nat \<times> nat list \<times> nat) option" where
  "divide_out_sqrt c n fs sqrt_n =
     (if c = 0 then None
      else if n mod c = 0
      then (case isqrt (n div c) of
              None \<Rightarrow> None
            | Some r \<Rightarrow> divide_out_sqrt c (n div c) (fs @ [c]) r)
      else Some (n, fs, sqrt_n))"

text \<open>The outer loop \<open>while (candidate <= sqrt_n) { ...; candidate += 2; }\<close>.\<close>

partial_function (option) trial_loop ::
  "nat \<Rightarrow> nat \<Rightarrow> nat list \<Rightarrow> nat \<Rightarrow> (nat \<times> nat list) option" where
  "trial_loop candidate n fs sqrt_n =
     (if candidate \<le> sqrt_n
      then (case divide_out_sqrt candidate n fs sqrt_n of
              None \<Rightarrow> None
            | Some (n', fs', sqrt_n') \<Rightarrow> trial_loop (u32 (candidate + 2)) n' fs' sqrt_n')
      else Some (n, fs))"

text \<open>
  The block \<open>if (n > 1) { ... }\<close> after the small-prime loop: the odd-candidate search
  when \<open>max_small * max_small <= n\<close>, then the push of a cofactor greater than 1.
\<close>

definition remaining_factors :: "nat \<Rightarrow> nat list \<Rightarrow> nat list option" where
  "remaining_factors n fs =
     (if n > 1
      then (let max_small = last small_primes in
            case (if u32 (max_small * max_small) \<le> n
                  then (let candidate = u32 (max_small + 2);
                            candidate = (if candidate mod 2 = 0 then u32 (candidate + 1)
                                         else candidate)
                        in case isqrt n of
                             None \<Rightarrow> None
                           | Some sqrt_n \<Rightarrow> trial_loop candidate n fs sqrt_n)
                  else Some (n, fs)) of
              None \<Rightarrow> None
            | Some (n', fs') \<Rightarrow> Some (if n' > 1 then fs' @ [n'] else fs'))
      else Some fs)"

text \<open>
  The computation of \<open>prime_factorize_optimized\<close> on a cache miss, from
  \<open>original_n = n\<close> down to the call of \<open>add_to_cache\<close> (which is not part of it).
\<close>

definition trial_division :: "nat \<Rightarrow> nat list option" where
  "trial_division n =
     (case small_primes_loop small_primes n [] of
        None \<Rightarrow> None
      | Some (n', fs) \<Rightarrow> remaining_factors n' fs)"

text \<open>
  \<open>prime_factorize_optimized\<close>: the result is the returned count's worth of buffer
  elements, as a list, and the cache after the call.
\<close>

definition prime_factorize_optimized ::
  "nat \<Rightarrow> cache_state \<Rightarrow> (nat list \<times> cache_state) option" where
  "prime_factorize_optimized n s =
     (if n \<le> 1 then Some ([], s)
      else case check_cache n s of
             Some fs \<Rightarrow> Some (fs, s)
           | None \<Rightarrow>
               (case trial_division n of
                  None \<Rightarrow> None
                | Some fs \<Rightarrow> Some (fs, add_to_cache n fs s)))"

section \<open>The wheel factorizer\<close>

definition wheel :: "nat list" where
  "wheel = [4, 6, 10, 12, 16, 18, 22, 24]"

definition wheel_size :: nat where
  "wheel_size = 8"

partial_function (option) wheel_loop ::
  "nat \<Rightarrow> nat \<Rightarrow> nat \<Rightarrow> nat list \<Rightarrow> nat \<Rightarrow> (nat \<times> nat list) option" where
  "wheel_loop candidate wheel_pos n fs sqrt_n =
     (if candidate \<le> sqrt_n
      then (case divide_out_sqrt candidate n fs sqrt_n of
              None \<Rightarrow> None
            | Some (n', fs', sqrt_n') \<Rightarrow>
                wheel_loop (u32 (candidate + wheel ! wheel_pos))
                  ((wheel_pos + 1) mod wheel_size) n' fs' sqrt_n')
      else Some (n, fs))"

definition wheel_factorize :: "nat \<Rightarrow> nat list option" where
  "wheel_factorize n =
     (if n \<le> 1 then Some []
      else case divide_out 2 n [] of
        None \<Rightarrow> None
      | Some (n2, fs2) \<Rightarrow>
      (case divide_out 3 n2 fs2 of
        None \<Rightarrow> None
      | Some (n3, fs3) \<Rightarrow>
      (case divide_out 5 n3 fs3 of
        None \<Rightarrow> None
      | Some (n5, fs5) \<Rightarrow>
          if n5 \<le> 1 then Some fs5
          else (case isqrt n5 of
                  None \<Rightarrow> None
                | Some sqrt_n \<Rightarrow>
                    (case wheel_loop 7 0 n5 fs5 sqrt_n of
                       None \<Rightarrow> None
                     | Some (n', fs') \<Rightarrow> Some (if n' > 1 then fs' @ [n'] else fs'))))))"

section \<open>Batch and precompute drivers\<close>

text \<open>
  \<open>lua_batch_prime_factorize\<close> (and \<open>batch_prime_factorize_avx2\<close>, which is the same
  loop): one call of \<open>prime_factorize_optimized\<close> per input, in input order, on the
  shared cache.
\<close>

fun lua_batch_prime_factorize ::
  "nat list \<Rightarrow> cache_state \<Rightarrow> (nat list list \<times> cache_state) option" where
  "lua_batch_prime_factorize [] s = Some ([], s)"
| "lua_batch_prime_factorize (x # xs) s =
     (case prime_factorize_optimized x s of
        None \<Rightarrow> None
      | Some (fs, s') \<Rightarrow>
          (case lua_batch_prime_factorize xs s' of
             None \<Rightarrow> None
           | Some (out, s'') \<Rightarrow> Some (fs # out, s'')))"

definition common_dims :: "nat list" where
  "common_dims =
     [1, 2, 3, 4, 8, 16, 32, 64, 128, 256, 512, 1024, 2048, 4096,
      224, 299, 331, 448, 640, 768, 896, 1280, 1920,
      7, 14, 28, 56, 112]"

text \<open>The loop \<open>for (i = 0; i < num_common && cache_size < MAX_CACHE_SIZE; i++)\<close>.\<close>

fun precompute_loop :: "nat list \<Rightarrow> cache_state \<Rightarrow> cache_state option" where
  "precompute_loop [] s = Some s"
| "precompute_loop (d # ds) s =
     (if cache_size s < MAX_CACHE_SIZE
      then (case prime_factorize_optimized d s of
              None \<Rightarrow> None
            | Some (fs, s') \<Rightarrow> precompute_loop ds s')
      else Some s)"

definition precompute_common_dimensions :: "cache_state \<Rightarrow> cache_state option" where
  "precompute_common_dimensions s = precompute_loop common_dims s"

text \<open>The binding \<open>lua_precompute_common_dimensions\<close> returns \<open>cache_size\<close> afterwards.\<close>

definition lua_precompute_common_dimensions :: "cache_state \<Rightarrow> (int \<times> cache_state) option" where
  "lua_precompute_common_dimensions s =
     (case precompute_common_dimensions s of
        None \<Rightarrow> None
      | Some s' \<Rightarrow> Some (cache_size s', s'))"

section \<open>Reachable cache states\<close>

text \<open>
  The cache states that the exposed operations produce from the initial one, on
  \<open>uint32_t\<close> inputs.
\<close>

inductive reachable :: "cache_state \<Rightarrow> bool" where
  reach_init: "reachable initial_cache"
| reach_factorize:
    "reachable s \<Longrightarrow> n < 4294967296 \<Longrightarrow> prime_factorize_optimized n s = Some (fs, s')
     \<Longrightarrow> reachable s'"
| reach_batch:
    "reachable s \<Longrightarrow> list_all (\<lambda>x. x < 4294967296) xs
     \<Longrightarrow> lua_batch_prime_factorize xs s = Some (out, s') \<Longrightarrow> reachable s'"
| reach_precompute:
    "reachable s \<Longrightarrow> precompute_common_dimensions s = Some s' \<Longrightarrow> reachable s'"
| reach_clear:
    "reachable s \<Longrightarrow> reachable (clear_factorization_cache s)"

section \<open>Proof vocabulary\<close>

text \<open>
  \<open>table_ok lo hi ps\<close>: the table \<open>ps\<close> is ascending from \<open>lo\<close>, bounded by 71, and every
  number between two consecutive entries (and between the last entry and \<open>hi\<close>) has a
  divisor among the numbers from 2 up to the earlier entry.  It is what makes a cofactor
  that survived all earlier entries free of small divisors.
\<close>

fun table_ok :: "nat \<Rightarrow> nat \<Rightarrow> nat list \<Rightarrow> bool" where
  "table_ok lo hi [] = (lo \<le> hi \<and> (\<forall>d\<in>{lo..<hi}. \<exists>e\<in>{2..<lo}. e dvd d))"
| "table_ok lo hi (p # ps) =
     (lo \<le> p \<and> p \<le> 71 \<and> (\<forall>d\<in>{lo..<p}. \<exists>e\<in>{2..<lo}. e dvd d) \<and> table_ok (p + 1) hi ps)"

text \<open>
  \<open>cache_ok s\<close>: the counter is within the table and every entry below it holds a number
  in \<open>[2, 2^32)\<close> together with exactly what the trial division computes for that number.
\<close>

definition cache_ok :: "cache_state \<Rightarrow> bool" where
  "cache_ok s \<longleftrightarrow>
     0 \<le> cache_size s \<and> cache_size s \<le> MAX_CACHE_SIZE \<and>
     (\<forall>i. 0 \<le> i \<and> i < cache_size s \<longrightarrow>
        2 \<le> number (factor_cache s i) \<and> number (factor_cache s i) < 4294967296 \<and>
        trial_division (number (factor_cache s i)) =
          Some (take (factor_count (factor_cache s i)) (factors (factor_cache s i))))"

section \<open>Evaluation\<close>

lemmas eval_defs =
  u32_def u8_def MAX_FACTORS_def MAX_CACHE_SIZE_def zero_entry_def initial_cache_def
  check_cache_def check_cache_from.simps add_to_cache_def isqrt_def isqrt_loop.simps
  small_primes_def divide_out.simps divide_out_sqrt.simps trial_loop.simps
  remaining_factors_def trial_division_def prime_factorize_optimized_def

section \<open>Correctness of the integer square root below \<open>2^32 - 1\<close>\<close>

lemma amgm_nat: "4 * (a * b) \<le> (a + b) * (a + (b::nat))"
proof (cases "a \<le> b")
  case True
  then obtain k where "b = a + k" using le_Suc_ex by blast
  then show ?thesis by (simp add: algebra_simps)
next
  case False
  then obtain k where "a = b + k" by (metis le_Suc_ex nat_le_linear)
  then show ?thesis by (simp add: algebra_simps)
qed

lemma newton_step_above:
  assumes "1 \<le> (x::nat)"
  shows "(n::nat) < ((x + n div x) div 2 + 1) * ((x + n div x) div 2 + 1)"
proof -
  define q where "q = n div x"
  define y where "y = (x + q) div 2"
  have "n = x * q + n mod x" unfolding q_def by simp
  moreover have "n mod x < x" using assms by simp
  ultimately have 1: "n < x * (q + 1)" by simp
  have 2: "x + (q + 1) \<le> 2 * (y + 1)" using y_def by presburger
  have "4 * n < 4 * (x * (q + 1))" using 1 by simp
  also have "\<dots> \<le> (x + (q + 1)) * (x + (q + 1))" by (rule amgm_nat)
  also have "\<dots> \<le> (2 * (y + 1)) * (2 * (y + 1))" by (intro mult_le_mono 2)
  also have "\<dots> = 4 * ((y + 1) * (y + 1))" by simp
  finally have "n < (y + 1) * (y + 1)" by simp
  then show ?thesis unfolding y_def q_def .
qed

lemma newton_step_sum_le:
  assumes "1 \<le> (x::nat)" "x \<le> n"
  shows "x + n div x \<le> n + 1"
proof -
  define q where "q = n div x"
  have q1: "1 \<le> q" unfolding q_def using assms by (simp add: Suc_le_eq div_greater_zero_iff)
  have "x * q \<le> n" unfolding q_def by simp
  moreover have "x + q \<le> x * q + 1"
  proof -
    obtain a where a: "x = a + 1" using assms(1) by (metis add.commute le_Suc_ex)
    obtain b where b: "q = b + 1" using q1 by (metis add.commute le_Suc_ex)
    show ?thesis unfolding a b by (simp add: algebra_simps)
  qed
  ultimately show ?thesis unfolding q_def by linarith
qed

lemma isqrt_loop_correct:
  assumes "1 \<le> x" "x \<le> n" "n < (x + 1) * (x + 1)" "n < 4294967295"
    and "y = (x + n div x) div 2"
  shows "\<exists>r. isqrt_loop n x y = Some r \<and> r * r \<le> n \<and> n < (r + 1) * (r + 1)"
  using assms
proof (induction n x y rule: isqrt_loop.induct)
  case (1 n x y)
  show ?case
  proof (cases "y < x")
    case True
    have y0: "y \<noteq> 0"
    proof
      assume "y = 0"
      then have "x + n div x < 2" using "1.prems"(5) by simp
      moreover have "1 \<le> n div x" using "1.prems"(1,2) by (simp add: Suc_le_eq div_greater_zero_iff)
      ultimately show False using "1.prems"(1) by simp
    qed
    have yn: "y \<le> n" using True "1.prems"(2) by simp
    have "y + n div y \<le> n + 1" using y0 yn by (intro newton_step_sum_le) simp_all
    then have u: "u32 (y + n div y) = y + n div y"
      using "1.prems"(4) by (simp add: u32_def)
    have above: "n < (y + 1) * (y + 1)"
      unfolding "1.prems"(5) using "1.prems"(1) by (rule newton_step_above)
    have "\<exists>r. isqrt_loop n y (u32 (y + n div y) div 2) = Some r \<and> r * r \<le> n \<and> n < (r + 1) * (r + 1)"
      using True y0 yn above "1.prems"(4) u by (intro "1.IH") simp_all
    then show ?thesis using True y0 by (subst isqrt_loop.simps) simp
  next
    case False
    then have "2 * x \<le> x + n div x" using "1.prems"(5) by simp
    then have "x \<le> n div x" by simp
    then have "x * x \<le> x * (n div x)" by simp
    also have "\<dots> \<le> n" by (rule times_div_less_eq_dividend)
    finally have "x * x \<le> n" .
    then show ?thesis using False "1.prems"(3) by (subst isqrt_loop.simps) simp
  qed
qed

lemma isqrt_correct:
  assumes "n < 4294967295"
  shows "\<exists>r. isqrt n = Some r \<and> r * r \<le> n \<and> n < (r + 1) * (r + 1)"
proof (cases "n < 2")
  case True
  then have "n = 0 \<or> n = 1" by auto
  then show ?thesis by (auto simp: isqrt_def)
next
  case False
  have u: "u32 (n + 1) = n + 1" using assms by (simp add: u32_def)
  have "\<exists>r. isqrt_loop n n ((n + 1) div 2) = Some r \<and> r * r \<le> n \<and> n < (r + 1) * (r + 1)"
    using False assms by (intro isqrt_loop_correct) simp_all
  then show ?thesis using False u by (simp add: isqrt_def)
qed

section \<open>The stages of the trial-division factorizer\<close>

lemma small_primes_ok: "table_ok 2 73 small_primes"
  unfolding small_primes_def by code_simp

lemma divide_out_spec:
  assumes "1 \<le> n" "prod_list fs * n = n0" "sorted fs" "\<forall>f\<in>set fs. 2 \<le> f \<and> f \<le> p"
    and "\<forall>d. 2 \<le> d \<and> d < p \<longrightarrow> \<not> d dvd n" "2 \<le> p"
  shows "\<exists>n' fs'. divide_out p n fs = Some (n', fs') \<and> 1 \<le> n' \<and> n' \<le> n
           \<and> prod_list fs' * n' = n0 \<and> sorted fs' \<and> (\<forall>f\<in>set fs'. 2 \<le> f \<and> f \<le> p)
           \<and> (\<forall>d. 2 \<le> d \<and> d \<le> p \<longrightarrow> \<not> d dvd n')"
  using assms
proof (induction n arbitrary: fs rule: less_induct)
  case (less n)
  show ?case
  proof (cases "n mod p = 0")
    case True
    then have pn: "p dvd n" by auto
    then have eq: "p * (n div p) = n" by simp
    have lt: "n div p < n" using less.prems(1,6) by simp
    have ge: "1 \<le> n div p" using pn less.prems(1,6)
      by (metis One_nat_def Suc_leI dvd_div_eq_0_iff gr0I not_one_le_zero)
    have pr: "prod_list (fs @ [p]) * (n div p) = n0"
      using less.prems(2) eq by (simp add: mult.assoc)
    have so: "sorted (fs @ [p])" using less.prems(3,4) by (simp add: sorted_append)
    have bd: "\<forall>f\<in>set (fs @ [p]). 2 \<le> f \<and> f \<le> p" using less.prems(4,6) by simp
    have nd: "\<forall>d. 2 \<le> d \<and> d < p \<longrightarrow> \<not> d dvd (n div p)"
      using less.prems(5) pn by (metis dvd_div_mult_self dvd_mult2)
    from less.IH [OF lt ge pr so bd nd less.prems(6)]
    obtain n' fs' where "divide_out p (n div p) (fs @ [p]) = Some (n', fs')" "1 \<le> n'"
      "n' \<le> n div p" "prod_list fs' * n' = n0" "sorted fs'" "\<forall>f\<in>set fs'. 2 \<le> f \<and> f \<le> p"
      "\<forall>d. 2 \<le> d \<and> d \<le> p \<longrightarrow> \<not> d dvd n'" by blast
    moreover have "divide_out p n fs = divide_out p (n div p) (fs @ [p])"
      using True less.prems(6) by (subst divide_out.simps) simp
    ultimately show ?thesis using lt by (intro exI [of _ n'] exI [of _ fs']) simp
  next
    case False
    then have "divide_out p n fs = Some (n, fs)"
      using less.prems(6) by (subst divide_out.simps) simp
    moreover have "\<forall>d. 2 \<le> d \<and> d \<le> p \<longrightarrow> \<not> d dvd n"
      using less.prems(5) False by (metis dvd_eq_mod_eq_0 le_neq_implies_less)
    ultimately show ?thesis using less.prems by simp
  qed
qed


lemma no_divisor_extend:
  assumes "\<forall>d. 2 \<le> d \<and> d < lo \<longrightarrow> \<not> d dvd (n::nat)"
    and "\<forall>d\<in>{lo..<hi}. \<exists>e\<in>{2..<lo}. e dvd d"
  shows "\<forall>d. 2 \<le> d \<and> d < hi \<longrightarrow> \<not> d dvd n"
proof (intro allI impI)
  fix d assume d: "2 \<le> d \<and> d < hi"
  show "\<not> d dvd n"
  proof (cases "d < lo")
    case True
    then show ?thesis using assms(1) d by blast
  next
    case False
    then have "d \<in> {lo..<hi}" using d by simp
    then obtain e where e: "e \<in> {2..<lo}" "e dvd d" using assms(2) by blast
    then have "\<not> e dvd n" using assms(1) by simp
    then show ?thesis using e(2) dvd_trans by blast
  qed
qed

lemma table_ok_le: "table_ok lo hi ps \<Longrightarrow> lo \<le> hi"
  by (induction ps arbitrary: lo) fastforce+

lemma small_primes_loop_spec:
  assumes "table_ok lo hi ps" "1 \<le> n" "prod_list fs * n = n0" "sorted fs"
    and "\<forall>f\<in>set fs. 2 \<le> f \<and> f < lo" "\<forall>d. 2 \<le> d \<and> d < lo \<longrightarrow> \<not> d dvd n" "2 \<le> lo"
  shows "\<exists>n' fs'. small_primes_loop ps n fs = Some (n', fs') \<and> sorted fs' \<and> 1 \<le> n' \<and> n' \<le> n
           \<and> ((1 < n' \<and> n' < 5041 \<and> prod_list fs' = n0 \<and> (\<forall>f\<in>set fs'. 2 \<le> f \<and> f \<le> n'))
              \<or> (prod_list fs' * n' = n0 \<and> (\<forall>f\<in>set fs'. 2 \<le> f \<and> f < hi)
                  \<and> (\<forall>d. 2 \<le> d \<and> d < hi \<longrightarrow> \<not> d dvd n')))"
  using assms
proof (induction ps arbitrary: lo n fs)
  case Nil
  have "lo \<le> hi" using Nil.prems(1) by simp
  moreover have "\<forall>d. 2 \<le> d \<and> d < hi \<longrightarrow> \<not> d dvd n"
    using Nil.prems(1,6) by (intro no_divisor_extend [of lo n hi]) simp_all
  ultimately show ?case using Nil.prems by fastforce
next
  case (Cons p ps)
  have lop: "lo \<le> p" and p71: "p \<le> 71" and gap: "\<forall>d\<in>{lo..<p}. \<exists>e\<in>{2..<lo}. e dvd d"
    and tab: "table_ok (p + 1) hi ps"
    using Cons.prems(1) by simp_all
  have p2: "2 \<le> p" using lop Cons.prems(7) by simp
  have nd: "\<forall>d. 2 \<le> d \<and> d < p \<longrightarrow> \<not> d dvd n"
    using Cons.prems(6) gap by (rule no_divisor_extend)
  have bd: "\<forall>f\<in>set fs. 2 \<le> f \<and> f \<le> p" using Cons.prems(5) lop by fastforce
  from divide_out_spec [OF Cons.prems(2,3,4) bd nd p2]
  obtain n1 fs1 where d: "divide_out p n fs = Some (n1, fs1)" and n1: "1 \<le> n1" "n1 \<le> n"
    and pr1: "prod_list fs1 * n1 = n0" and so1: "sorted fs1"
    and bd1: "\<forall>f\<in>set fs1. 2 \<le> f \<and> f \<le> p" and nd1: "\<forall>d. 2 \<le> d \<and> d \<le> p \<longrightarrow> \<not> d dvd n1"
    by blast
  have pp: "p * p \<le> 5041"
    using p71 mult_le_mono [of p 71 p 71] by simp
  then have upp: "u32 (p * p) = p * p" by (simp add: u32_def)
  have hi: "p < hi" using table_ok_le [OF tab] by simp
  consider (one) "n1 = 1" | (early) "n1 \<noteq> 1" "p * p > n1" | (cont) "n1 \<noteq> 1" "\<not> p * p > n1"
    by blast
  then show ?case
  proof cases
    case one
    then have "small_primes_loop (p # ps) n fs = Some (n1, fs1)" using d by simp
    moreover have "\<forall>f\<in>set fs1. 2 \<le> f \<and> f < hi" using bd1 hi by fastforce
    moreover have "\<forall>d. 2 \<le> d \<and> d < hi \<longrightarrow> \<not> d dvd n1" using one by auto
    ultimately show ?thesis using n1 pr1 so1 by simp
  next
    case early
    have gt: "1 < n1" using n1 early by simp
    have pn: "p < n1"
    proof (rule ccontr)
      assume "\<not> p < n1"
      then have "2 \<le> n1 \<and> n1 \<le> p" using gt by simp
      then have "\<not> n1 dvd n1" using nd1 by blast
      then show False by simp
    qed
    have "small_primes_loop (p # ps) n fs = Some (n1, fs1 @ [n1])"
      using d early gt upp by simp
    moreover have "sorted (fs1 @ [n1])" using so1 bd1 pn by (fastforce simp: sorted_append)
    moreover have "prod_list (fs1 @ [n1]) = n0" using pr1 by simp
    moreover have "\<forall>f\<in>set (fs1 @ [n1]). 2 \<le> f \<and> f \<le> n1" using bd1 pn gt by fastforce
    moreover have "n1 < 5041" using early pp by simp
    ultimately show ?thesis using gt n1 by (intro exI [of _ n1] exI [of _ "fs1 @ [n1]"]) simp
  next
    case cont
    have bd1': "\<forall>f\<in>set fs1. 2 \<le> f \<and> f < p + 1" using bd1 by fastforce
    have nd1': "\<forall>d. 2 \<le> d \<and> d < p + 1 \<longrightarrow> \<not> d dvd n1" using nd1 by simp
    have p1: "2 \<le> p + 1" using p2 by simp
    from Cons.IH [OF tab n1(1) pr1 so1 bd1' nd1' p1]
    obtain n' fs' where r: "small_primes_loop ps n1 fs1 = Some (n', fs')" "sorted fs'" "1 \<le> n'"
      "n' \<le> n1"
      "(1 < n' \<and> n' < 5041 \<and> prod_list fs' = n0 \<and> (\<forall>f\<in>set fs'. 2 \<le> f \<and> f \<le> n'))
       \<or> (prod_list fs' * n' = n0 \<and> (\<forall>f\<in>set fs'. 2 \<le> f \<and> f < hi)
           \<and> (\<forall>d. 2 \<le> d \<and> d < hi \<longrightarrow> \<not> d dvd n'))"
      by blast
    have "small_primes_loop (p # ps) n fs = small_primes_loop ps n1 fs1"
      using d cont upp by simp
    then show ?thesis using r n1 by (intro exI [of _ n'] exI [of _ fs']) simp
  qed
qed

lemma divide_out_sqrt_spec:
  assumes "1 \<le> n" "n < 4294967295" "prod_list fs * n = n0" "sorted fs"
    and "\<forall>f\<in>set fs. 2 \<le> f \<and> f \<le> c" "\<forall>d. 2 \<le> d \<and> d < c \<longrightarrow> \<not> d dvd n" "2 \<le> c"
    and "r * r \<le> n \<and> n < (r + 1) * (r + 1)"
  shows "\<exists>n' fs' r'. divide_out_sqrt c n fs r = Some (n', fs', r') \<and> 1 \<le> n' \<and> n' \<le> n
           \<and> prod_list fs' * n' = n0 \<and> sorted fs' \<and> (\<forall>f\<in>set fs'. 2 \<le> f \<and> f \<le> c)
           \<and> (\<forall>d. 2 \<le> d \<and> d \<le> c \<longrightarrow> \<not> d dvd n')
           \<and> r' * r' \<le> n' \<and> n' < (r' + 1) * (r' + 1)"
  using assms
proof (induction n arbitrary: fs r rule: less_induct)
  case (less n)
  show ?case
  proof (cases "n mod c = 0")
    case True
    then have cn: "c dvd n" by auto
    then have eq: "c * (n div c) = n" by simp
    have lt: "n div c < n" using less.prems(1,7) by simp
    have ge: "1 \<le> n div c" using cn less.prems(1,7)
      by (metis One_nat_def Suc_leI dvd_div_eq_0_iff gr0I not_one_le_zero)
    have small: "n div c < 4294967295" using lt less.prems(2) by simp
    have pr: "prod_list (fs @ [c]) * (n div c) = n0"
      using less.prems(3) eq by (simp add: mult.assoc)
    have so: "sorted (fs @ [c])" using less.prems(4,5) by (simp add: sorted_append)
    have bd: "\<forall>f\<in>set (fs @ [c]). 2 \<le> f \<and> f \<le> c" using less.prems(5,7) by simp
    have nd: "\<forall>d. 2 \<le> d \<and> d < c \<longrightarrow> \<not> d dvd (n div c)"
      using less.prems(6) cn by (metis dvd_div_mult_self dvd_mult2)
    from isqrt_correct [OF small] obtain q where q: "isqrt (n div c) = Some q"
      "q * q \<le> n div c \<and> n div c < (q + 1) * (q + 1)" by blast
    from less.IH [OF lt ge small pr so bd nd less.prems(7) q(2)]
    obtain n' fs' r' where "divide_out_sqrt c (n div c) (fs @ [c]) q = Some (n', fs', r')"
      "1 \<le> n'" "n' \<le> n div c" "prod_list fs' * n' = n0" "sorted fs'"
      "\<forall>f\<in>set fs'. 2 \<le> f \<and> f \<le> c" "\<forall>d. 2 \<le> d \<and> d \<le> c \<longrightarrow> \<not> d dvd n'"
      "r' * r' \<le> n' \<and> n' < (r' + 1) * (r' + 1)" by blast
    moreover have "divide_out_sqrt c n fs r = divide_out_sqrt c (n div c) (fs @ [c]) q"
      using True less.prems(7) q(1) by (subst divide_out_sqrt.simps) simp
    ultimately show ?thesis using lt
      by (intro exI [of _ n'] exI [of _ fs'] exI [of _ r']) simp
  next
    case False
    then have "divide_out_sqrt c n fs r = Some (n, fs, r)"
      using less.prems(7) by (subst divide_out_sqrt.simps) simp
    moreover have "\<forall>d. 2 \<le> d \<and> d \<le> c \<longrightarrow> \<not> d dvd n"
      using less.prems(6) False by (metis dvd_eq_mod_eq_0 le_neq_implies_less)
    ultimately show ?thesis using less.prems by simp
  qed
qed

lemma sqrt_bound:
  assumes "r * r \<le> n" "n < 4294967296"
  shows "(r::nat) < 65536"
proof (rule ccontr)
  assume "\<not> r < 65536"
  then have "65536 \<le> r" by simp
  then have "65536 * 65536 \<le> r * r" by (intro mult_le_mono)
  then show False using assms by simp
qed

lemma trial_loop_spec:
  assumes "1 \<le> n" "n < 4294967295" "prod_list fs * n = n0" "sorted fs"
    and "\<forall>f\<in>set fs. 2 \<le> f \<and> f < c" "\<forall>d. 2 \<le> d \<and> d < c \<longrightarrow> \<not> d dvd n" "3 \<le> c" "odd c"
    and "r * r \<le> n \<and> n < (r + 1) * (r + 1)"
  shows "\<exists>n' fs'. trial_loop c n fs r = Some (n', fs') \<and> 1 \<le> n' \<and> prod_list fs' * n' = n0
           \<and> sorted fs' \<and> (\<forall>f\<in>set fs'. 2 \<le> f \<and> (1 < n' \<longrightarrow> f \<le> n'))"
  using assms
proof (induction "65536 - c" arbitrary: c n fs r rule: less_induct)
  case less
  show ?case
  proof (cases "c \<le> r")
    case True
    have "r < 65536" using less.prems(2,9) by (intro sqrt_bound [of r n]) simp_all
    then have c16: "c < 65536" using True by simp
    then have u: "u32 (c + 2) = c + 2" by (simp add: u32_def)
    have bd: "\<forall>f\<in>set fs. 2 \<le> f \<and> f \<le> c" using less.prems(5) by fastforce
    have c2: "2 \<le> c" using less.prems(7) by simp
    from divide_out_sqrt_spec [OF less.prems(1,2,3,4) bd less.prems(6) c2 less.prems(9)]
    obtain n1 fs1 r1 where d: "divide_out_sqrt c n fs r = Some (n1, fs1, r1)"
      and n1: "1 \<le> n1" "n1 \<le> n" and pr1: "prod_list fs1 * n1 = n0" and so1: "sorted fs1"
      and bd1: "\<forall>f\<in>set fs1. 2 \<le> f \<and> f \<le> c" and nd1: "\<forall>d. 2 \<le> d \<and> d \<le> c \<longrightarrow> \<not> d dvd n1"
      and r1: "r1 * r1 \<le> n1 \<and> n1 < (r1 + 1) * (r1 + 1)"
      by blast
    have m: "65536 - (c + 2) < 65536 - c" using c16 by simp
    have small: "n1 < 4294967295" using n1(2) less.prems(2) by simp
    have bd1': "\<forall>f\<in>set fs1. 2 \<le> f \<and> f < c + 2" using bd1 by fastforce
    have "\<not> 2 dvd n1" using nd1 c2 by blast
    moreover have "2 dvd (c + 1)" using less.prems(8) by simp
    ultimately have "\<not> (c + 1) dvd n1" using dvd_trans by blast
    then have nd1': "\<forall>d. 2 \<le> d \<and> d < c + 2 \<longrightarrow> \<not> d dvd n1"
      using nd1 by (metis Suc_eq_plus1 add_2_eq_Suc' le_SucE less_Suc_eq_le)
    have c3: "3 \<le> c + 2" using c2 by simp
    have odd: "odd (c + 2)" using less.prems(8) by simp
    from less.hyps [OF m n1(1) small pr1 so1 bd1' nd1' c3 odd r1]
    obtain n' fs' where "trial_loop (c + 2) n1 fs1 r1 = Some (n', fs')" "1 \<le> n'"
      "prod_list fs' * n' = n0" "sorted fs'" "\<forall>f\<in>set fs'. 2 \<le> f \<and> (1 < n' \<longrightarrow> f \<le> n')"
      by blast
    moreover have "trial_loop c n fs r = trial_loop (c + 2) n1 fs1 r1"
      using True d u by (subst trial_loop.simps) simp
    ultimately show ?thesis by (intro exI [of _ n'] exI [of _ fs']) simp
  next
    case False
    then have "trial_loop c n fs r = Some (n, fs)" by (subst trial_loop.simps) simp
    moreover have "\<forall>f\<in>set fs. 2 \<le> f \<and> (1 < n \<longrightarrow> f \<le> n)"
    proof (intro ballI conjI impI)
      fix f assume f: "f \<in> set fs"
      then show "2 \<le> f" using less.prems(5) by blast
      assume "1 < n"
      then have "\<not> n < c" using less.prems(6) by (metis Suc_1 Suc_leI dvd_refl)
      then show "f \<le> n" using less.prems(5) f by fastforce
    qed
    ultimately show ?thesis using less.prems by simp
  qed
qed

lemma prod_list_ge_power:
  "\<forall>f\<in>set fs. 2 \<le> f \<Longrightarrow> 2 ^ length fs \<le> prod_list (fs::nat list)"
proof (induction fs)
  case Nil
  then show ?case by simp
next
  case (Cons f fs)
  then have "2 * 2 ^ length fs \<le> f * prod_list fs" by (intro mult_le_mono) simp_all
  then show ?case by simp
qed

lemma length_factors_bound:
  assumes "\<forall>f\<in>set fs. 2 \<le> f" "prod_list fs \<le> n" "n < 4294967296"
  shows "length (fs::nat list) \<le> 31"
proof -
  have "(2::nat) ^ length fs < 2 ^ 32"
    using prod_list_ge_power [OF assms(1)] assms(2,3) by simp
  then have "length fs < 32" by (rule power_less_imp_less_exp [rotated]) simp
  then show ?thesis by simp
qed


lemma remaining_factors_below:
  assumes "1 < n" "n < 5041"
  shows "remaining_factors n fs = Some (fs @ [n])"
  using assms by (simp add: remaining_factors_def small_primes_def u32_def)

lemma remaining_factors_one: "remaining_factors 1 fs = Some fs"
  by (simp add: remaining_factors_def)

lemma remaining_factors_above:
  assumes "5041 \<le> n"
  shows "remaining_factors n fs =
           (case isqrt n of None \<Rightarrow> None
            | Some sqrt_n \<Rightarrow>
                (case trial_loop 73 n fs sqrt_n of None \<Rightarrow> None
                 | Some (n', fs') \<Rightarrow> Some (if n' > 1 then fs' @ [n'] else fs')))"
  using assms by (simp add: remaining_factors_def small_primes_def u32_def split: option.splits)

lemma trial_division_spec:
  assumes "2 \<le> n0" "n0 < 4294967296"
  shows "\<exists>fs. trial_division n0 = Some fs \<and> sorted fs \<and> (\<forall>f\<in>set fs. 2 \<le> f)
           \<and> length fs \<le> 32"
proof -
  have n1: "1 \<le> n0" using assms(1) by simp
  have "\<exists>n fs. small_primes_loop small_primes n0 [] = Some (n, fs) \<and> sorted fs \<and> 1 \<le> n \<and> n \<le> n0
           \<and> ((1 < n \<and> n < 5041 \<and> prod_list fs = n0 \<and> (\<forall>f\<in>set fs. 2 \<le> f \<and> f \<le> n))
              \<or> (prod_list fs * n = n0 \<and> (\<forall>f\<in>set fs. 2 \<le> f \<and> f < 73)
                  \<and> (\<forall>d. 2 \<le> d \<and> d < 73 \<longrightarrow> \<not> d dvd n)))"
    by (rule small_primes_loop_spec [OF small_primes_ok n1]) auto
  then obtain n fs where l: "small_primes_loop small_primes n0 [] = Some (n, fs)" and so: "sorted fs"
    and n: "1 \<le> n" "n \<le> n0"
    and alt: "(1 < n \<and> n < 5041 \<and> prod_list fs = n0 \<and> (\<forall>f\<in>set fs. 2 \<le> f \<and> f \<le> n))
       \<or> (prod_list fs * n = n0 \<and> (\<forall>f\<in>set fs. 2 \<le> f \<and> f < 73)
           \<and> (\<forall>d. 2 \<le> d \<and> d < 73 \<longrightarrow> \<not> d dvd n))"
    by blast
  have td: "trial_division n0 = remaining_factors n fs" using l by (simp add: trial_division_def)
  from alt show ?thesis
  proof
    assume a: "1 < n \<and> n < 5041 \<and> prod_list fs = n0 \<and> (\<forall>f\<in>set fs. 2 \<le> f \<and> f \<le> n)"
    then have "trial_division n0 = Some (fs @ [n])" using td remaining_factors_below by simp
    moreover have "sorted (fs @ [n])" using so a by (simp add: sorted_append)
    moreover have "\<forall>f\<in>set (fs @ [n]). 2 \<le> f" using a by auto
    moreover have "length fs \<le> 31" using a assms(2) by (intro length_factors_bound [of fs n0]) simp_all
    ultimately show ?thesis by simp
  next
    assume b: "prod_list fs * n = n0 \<and> (\<forall>f\<in>set fs. 2 \<le> f \<and> f < 73)
           \<and> (\<forall>d. 2 \<le> d \<and> d < 73 \<longrightarrow> \<not> d dvd n)"
    have bd2: "\<forall>f\<in>set fs. 2 \<le> f" using b by blast
    have ge73: "73 \<le> n" if "1 < n"
    proof (rule ccontr)
      assume "\<not> 73 \<le> n"
      then have "2 \<le> n \<and> n < 73" using that by simp
      then have "\<not> n dvd n" using b by blast
      then show False by simp
    qed
    consider (one) "n = 1" | (mid) "1 < n" "n < 5041" | (big) "5041 \<le> n" using n(1) by linarith
    then show ?thesis
    proof cases
      case one
      then have "trial_division n0 = Some fs" using td remaining_factors_one by simp
      moreover have "length fs \<le> 31" using b one bd2 assms(2)
        by (intro length_factors_bound [of fs n0]) simp_all
      ultimately show ?thesis using so bd2 by simp
    next
      case mid
      then have "trial_division n0 = Some (fs @ [n])" using td remaining_factors_below by simp
      moreover have "sorted (fs @ [n])" using so b ge73 [OF mid(1)] by (fastforce simp: sorted_append)
      moreover have "\<forall>f\<in>set (fs @ [n]). 2 \<le> f" using bd2 mid by auto
      moreover have "length (fs @ [n]) \<le> 31" using b bd2 mid assms(2)
        by (intro length_factors_bound [of "fs @ [n]" n0]) simp_all
      ultimately show ?thesis by simp
    next
      case big
      have "\<not> 3 dvd n" using b by simp
      moreover have "(3::nat) dvd 4294967295" by simp
      ultimately have "n \<noteq> 4294967295" by metis
      then have small: "n < 4294967295" using n(2) assms(2) by simp
      from isqrt_correct [OF small] obtain r where r: "isqrt n = Some r"
        "r * r \<le> n \<and> n < (r + 1) * (r + 1)" by blast
      have pr: "prod_list fs * n = n0" and bd: "\<forall>f\<in>set fs. 2 \<le> f \<and> f < 73"
        and nd: "\<forall>d. 2 \<le> d \<and> d < 73 \<longrightarrow> \<not> d dvd n" using b by blast+
      have c3: "(3::nat) \<le> 73" and odd: "odd (73::nat)" by simp_all
      from trial_loop_spec [OF n(1) small pr so bd nd c3 odd r(2)]
      obtain n' fs' where t: "trial_loop 73 n fs r = Some (n', fs')" "1 \<le> n'"
        "prod_list fs' * n' = n0" "sorted fs'" "\<forall>f\<in>set fs'. 2 \<le> f \<and> (1 < n' \<longrightarrow> f \<le> n')"
        by blast
      let ?res = "if n' > 1 then fs' @ [n'] else fs'"
      have "trial_division n0 = Some ?res"
        using td remaining_factors_above [OF big] r(1) t(1) by simp
      moreover have "sorted ?res" using t(4,5) by (simp add: sorted_append)
      moreover have "\<forall>f\<in>set ?res. 2 \<le> f" using t(5) by auto
      moreover have "prod_list ?res = n0" using t(2,3) by (cases "n' = 1") auto
      then have "length ?res \<le> 31" using \<open>\<forall>f\<in>set ?res. 2 \<le> f\<close> assms(2)
        by (intro length_factors_bound [of ?res n0]) simp_all
      ultimately show ?thesis by (intro exI [of _ ?res]) simp
    qed
  qed
qed

section \<open>The cache invariant\<close>

lemma check_cache_from_Some:
  assumes "check_cache_from i n s = Some fs" "0 \<le> i"
  shows "\<exists>j. 0 \<le> j \<and> j < cache_size s \<and> number (factor_cache s j) = n
           \<and> fs = take (factor_count (factor_cache s j)) (factors (factor_cache s j))"
  using assms
proof (induction i n s rule: check_cache_from.induct)
  case (1 i n s)
  show ?case
  proof (cases "i < cache_size s")
    case True
    show ?thesis
    proof (cases "number (factor_cache s i) = n")
      case hit: True
      then have "fs = take (factor_count (factor_cache s i)) (factors (factor_cache s i))"
        using "1.prems"(1) True by (subst (asm) check_cache_from.simps) simp
      then show ?thesis using True hit "1.prems"(2) by blast
    next
      case False
      then have "check_cache_from (i + 1) n s = Some fs"
        using "1.prems"(1) True by (subst (asm) check_cache_from.simps) simp
      then show ?thesis using "1.IH" [OF True False] "1.prems"(2) by simp
    qed
  next
    case False
    then show ?thesis using "1.prems"(1) by (subst (asm) check_cache_from.simps) simp
  qed
qed

lemma check_cache_from_None:
  assumes "\<forall>j. i \<le> j \<and> j < cache_size s \<longrightarrow> number (factor_cache s j) \<noteq> n"
  shows "check_cache_from i n s = None"
  using assms
proof (induction i n s rule: check_cache_from.induct)
  case (1 i n s)
  show ?case
  proof (cases "i < cache_size s")
    case True
    then have ne: "number (factor_cache s i) \<noteq> n" using "1.prems" by simp
    have "check_cache_from (i + 1) n s = None" using "1.IH" [OF True ne] "1.prems" by simp
    then show ?thesis using True ne by (subst check_cache_from.simps) simp
  next
    case False
    then show ?thesis by (subst check_cache_from.simps) simp
  qed
qed

lemma check_cache_hit:
  assumes "cache_ok s" "check_cache n s = Some fs"
  shows "2 \<le> n \<and> n < 4294967296 \<and> trial_division n = Some fs"
proof -
  from check_cache_from_Some [OF assms(2) [unfolded check_cache_def]]
  obtain j where "0 \<le> j" "j < cache_size s" "number (factor_cache s j) = n"
    "fs = take (factor_count (factor_cache s j)) (factors (factor_cache s j))" by auto
  then show ?thesis using assms(1) unfolding cache_ok_def by blast
qed

lemma check_cache_initial: "check_cache n initial_cache = None"
  by (simp add: check_cache_def initial_cache_def check_cache_from.simps)

lemma factorize_cases:
  assumes "n < 4294967296"
  shows "(n \<le> 1 \<and> prime_factorize_optimized n s = Some ([], s))
       \<or> (2 \<le> n \<and> (\<exists>fs. check_cache n s = Some fs \<and> prime_factorize_optimized n s = Some (fs, s)))
       \<or> (2 \<le> n \<and> check_cache n s = None
           \<and> (\<exists>fs. trial_division n = Some fs \<and> sorted fs \<and> length fs \<le> 32
                 \<and> prime_factorize_optimized n s = Some (fs, add_to_cache n fs s)))"
proof (cases "n \<le> 1")
  case True
  then show ?thesis by (simp add: prime_factorize_optimized_def)
next
  case False
  then have n2: "2 \<le> n" by simp
  show ?thesis
  proof (cases "check_cache n s")
    case None
    from trial_division_spec [OF n2 assms] obtain fs where
      "trial_division n = Some fs" "sorted fs" "length fs \<le> 32" by blast
    then show ?thesis using None False n2 by (simp add: prime_factorize_optimized_def)
  next
    case (Some fs)
    then show ?thesis using False n2 by (simp add: prime_factorize_optimized_def)
  qed
qed

lemma fresh_factorize:
  "map_option fst (prime_factorize_optimized n initial_cache) =
     (if n \<le> 1 then Some [] else trial_division n)"
  by (simp add: prime_factorize_optimized_def check_cache_initial split: option.splits)

lemma cache_ok_initial: "cache_ok initial_cache"
  by (auto simp: cache_ok_def initial_cache_def MAX_CACHE_SIZE_def)

lemma cache_ok_clear: "cache_ok (clear_factorization_cache s)"
  by (auto simp: cache_ok_def clear_factorization_cache_def MAX_CACHE_SIZE_def)

lemma cache_ok_add:
  assumes "cache_ok s" "2 \<le> n" "n < 4294967296" "trial_division n = Some fs"
  shows "cache_ok (add_to_cache n fs s)"
proof (cases "cache_size s \<ge> MAX_CACHE_SIZE \<or> int (length fs) \<ge> MAX_FACTORS")
  case True
  then show ?thesis using assms(1) by (simp add: add_to_cache_def)
next
  case False
  then have len: "length fs < 64" and sz: "cache_size s < MAX_CACHE_SIZE"
    by (simp_all add: MAX_FACTORS_def)
  then have u: "u8 (length fs) = length fs" by (simp add: u8_def)
  show ?thesis
    unfolding cache_ok_def
  proof (intro conjI allI impI)
    show "0 \<le> cache_size (add_to_cache n fs s)"
      using assms(1) False by (simp add: add_to_cache_def cache_ok_def)
    show "cache_size (add_to_cache n fs s) \<le> MAX_CACHE_SIZE"
      using sz False by (simp add: add_to_cache_def)
  next
    fix i assume i: "0 \<le> i \<and> i < cache_size (add_to_cache n fs s)"
    then have i': "i < cache_size s \<or> i = cache_size s" using False by (auto simp: add_to_cache_def)
    have old: "i < cache_size s \<Longrightarrow> factor_cache (add_to_cache n fs s) i = factor_cache s i"
      using False by (simp add: add_to_cache_def)
    have new: "i = cache_size s \<Longrightarrow> factor_cache (add_to_cache n fs s) i =
        \<lparr>number = n, factor_count = length fs,
         factors = fs @ drop (length fs) (factors (factor_cache s (cache_size s)))\<rparr>"
      using False u by (simp add: add_to_cache_def)
    show "2 \<le> number (factor_cache (add_to_cache n fs s) i)"
      using i' i old new assms unfolding cache_ok_def by auto
    show "number (factor_cache (add_to_cache n fs s) i) < 4294967296"
      using i' i old new assms unfolding cache_ok_def by auto
    show "trial_division (number (factor_cache (add_to_cache n fs s) i)) =
       Some (take (factor_count (factor_cache (add_to_cache n fs s) i))
              (factors (factor_cache (add_to_cache n fs s) i)))"
      using i' i old new assms unfolding cache_ok_def by auto
  qed
qed

lemma factorize_cache_ok:
  assumes "cache_ok s" "n < 4294967296" "prime_factorize_optimized n s = Some (fs, s')"
  shows "cache_ok s' \<and> map_option fst (prime_factorize_optimized n initial_cache) = Some fs"
  using factorize_cases [OF assms(2), of s] assms
  by (auto simp: fresh_factorize cache_ok_add dest: check_cache_hit)

lemma batch_total:
  assumes "list_all (\<lambda>x. x < 4294967296) xs"
  shows "\<exists>out s'. lua_batch_prime_factorize xs s = Some (out, s')"
  using assms
proof (induction xs arbitrary: s)
  case Nil
  then show ?case by simp
next
  case (Cons x xs)
  then have x: "x < 4294967296" by simp
  from factorize_cases [OF x, of s] obtain fs s1 where
    "prime_factorize_optimized x s = Some (fs, s1)" by blast
  moreover from Cons obtain out s' where "lua_batch_prime_factorize xs s1 = Some (out, s')"
    by fastforce
  ultimately show ?case by simp
qed

lemma batch_cache_ok:
  assumes "cache_ok s" "list_all (\<lambda>x. x < 4294967296) xs"
    "lua_batch_prime_factorize xs s = Some (out, s')"
  shows "cache_ok s'"
  using assms
proof (induction xs arbitrary: s out)
  case Nil
  then show ?case by simp
next
  case (Cons x xs)
  from Cons.prems(3) obtain fs s1 out1 where
    f: "prime_factorize_optimized x s = Some (fs, s1)"
    and b: "lua_batch_prime_factorize xs s1 = Some (out1, s')"
    by (auto split: option.splits)
  have "cache_ok s1" using factorize_cache_ok [OF Cons.prems(1) _ f] Cons.prems(2) by simp
  then show ?case using Cons.IH [OF _ _ b] Cons.prems(2) by simp
qed

lemma precompute_loop_total:
  assumes "list_all (\<lambda>x. x < 4294967296) ds"
  shows "\<exists>s'. precompute_loop ds s = Some s'"
  using assms
proof (induction ds arbitrary: s)
  case Nil
  then show ?case by simp
next
  case (Cons d ds)
  then have d: "d < 4294967296" by simp
  from factorize_cases [OF d, of s] obtain fs s1 where
    "prime_factorize_optimized d s = Some (fs, s1)" by blast
  moreover from Cons obtain s' where "precompute_loop ds s1 = Some s'" by fastforce
  ultimately show ?case by simp
qed

lemma precompute_loop_cache_ok:
  assumes "cache_ok s" "list_all (\<lambda>x. x < 4294967296) ds" "precompute_loop ds s = Some s'"
  shows "cache_ok s'"
  using assms
proof (induction ds arbitrary: s)
  case Nil
  then show ?case by simp
next
  case (Cons d ds)
  show ?case
  proof (cases "cache_size s < MAX_CACHE_SIZE")
    case True
    with Cons.prems(3) obtain fs s1 where
      f: "prime_factorize_optimized d s = Some (fs, s1)"
      and b: "precompute_loop ds s1 = Some s'"
      by (auto split: option.splits)
    have "cache_ok s1" using factorize_cache_ok [OF Cons.prems(1) _ f] Cons.prems(2) by simp
    then show ?thesis using Cons.IH [OF _ _ b] Cons.prems(2) by simp
  next
    case False
    then show ?thesis using Cons.prems by simp
  qed
qed

lemma common_dims_u32: "list_all (\<lambda>x. x < 4294967296) common_dims"
  by (simp add: common_dims_def)

lemma reachable_cache_ok: "reachable s \<Longrightarrow> cache_ok s"
proof (induction rule: reachable.induct)
  case reach_init
  show ?case by (rule cache_ok_initial)
next
  case (reach_factorize s n fs s')
  then show ?case using factorize_cache_ok by blast
next
  case (reach_batch s xs out s')
  then show ?case using batch_cache_ok by blast
next
  case (reach_precompute s s')
  then show ?case
    using precompute_loop_cache_ok [OF _ common_dims_u32] by (simp add: precompute_common_dimensions_def)
next
  case (reach_clear s)
  show ?case by (rule cache_ok_clear)
qed

section \<open>Batch driver and cache size\<close>

lemma batch_spec:
  assumes "list_all (\<lambda>x. x < 4294967296) xs"
  shows "\<exists>out s'. lua_batch_prime_factorize xs s = Some (out, s') \<and> length out = length xs \<and>
           (\<forall>i<length xs. \<exists>si si'.
              lua_batch_prime_factorize (take i xs) s = Some (take i out, si)
              \<and> prime_factorize_optimized (xs ! i) si = Some (out ! i, si')
              \<and> (cache_ok s \<longrightarrow> cache_ok si))"
  using assms
proof (induction xs arbitrary: s)
  case Nil
  then show ?case by simp
next
  case (Cons x xs)
  then have x: "x < 4294967296" and xs: "list_all (\<lambda>x. x < 4294967296) xs" by simp_all
  from factorize_cases [OF x, of s] obtain fs s1 where
    f: "prime_factorize_optimized x s = Some (fs, s1)" by blast
  have ok1: "cache_ok s \<Longrightarrow> cache_ok s1" using factorize_cache_ok [OF _ x f] by simp
  from Cons.IH [OF xs, of s1] obtain out s' where
    b: "lua_batch_prime_factorize xs s1 = Some (out, s')" and len: "length out = length xs"
    and pt: "\<forall>i<length xs. \<exists>si si'.
              lua_batch_prime_factorize (take i xs) s1 = Some (take i out, si)
              \<and> prime_factorize_optimized (xs ! i) si = Some (out ! i, si')
              \<and> (cache_ok s1 \<longrightarrow> cache_ok si)"
    by blast
  have "\<exists>si si'. lua_batch_prime_factorize (take i (x # xs)) s = Some (take i (fs # out), si)
              \<and> prime_factorize_optimized ((x # xs) ! i) si = Some ((fs # out) ! i, si')
              \<and> (cache_ok s \<longrightarrow> cache_ok si)" if "i < length (x # xs)" for i
  proof (cases i)
    case 0
    then show ?thesis using f by simp
  next
    case (Suc j)
    then have "j < length xs" using that by simp
    with pt obtain si si' where
      "lua_batch_prime_factorize (take j xs) s1 = Some (take j out, si)"
      "prime_factorize_optimized (xs ! j) si = Some (out ! j, si')"
      "cache_ok s1 \<longrightarrow> cache_ok si" by blast
    then show ?thesis using Suc f ok1 by (intro exI [of _ si] exI [of _ si']) simp
  qed
  then show ?case using f b len by (intro exI [of _ "fs # out"] exI [of _ s']) simp
qed

lemma add_to_cache_size:
  assumes "0 \<le> cache_size s" "cache_size s \<le> MAX_CACHE_SIZE"
  shows "0 \<le> cache_size (add_to_cache n fs s) \<and> cache_size (add_to_cache n fs s) \<le> MAX_CACHE_SIZE"
  using assms by (simp add: add_to_cache_def)

lemma add_to_cache_full: "cache_size s = MAX_CACHE_SIZE \<Longrightarrow> add_to_cache n fs s = s"
  by (simp add: add_to_cache_def)

lemma factorize_size:
  assumes "0 \<le> cache_size s" "cache_size s \<le> MAX_CACHE_SIZE"
    and "prime_factorize_optimized n s = Some (fs, s')"
  shows "0 \<le> cache_size s' \<and> cache_size s' \<le> MAX_CACHE_SIZE"
  using assms add_to_cache_size [OF assms(1,2)]
  by (auto simp: prime_factorize_optimized_def split: if_splits option.splits)

lemma batch_size:
  assumes "0 \<le> cache_size s" "cache_size s \<le> MAX_CACHE_SIZE"
    and "lua_batch_prime_factorize xs s = Some (out, s')"
  shows "0 \<le> cache_size s' \<and> cache_size s' \<le> MAX_CACHE_SIZE"
  using assms
proof (induction xs arbitrary: s out)
  case Nil
  then show ?case by simp
next
  case (Cons x xs)
  from Cons.prems(3) obtain fs s1 out1 where
    f: "prime_factorize_optimized x s = Some (fs, s1)"
    and b: "lua_batch_prime_factorize xs s1 = Some (out1, s')"
    by (auto split: option.splits)
  from factorize_size [OF Cons.prems(1,2) f] show ?case using Cons.IH [OF _ _ b] by simp
qed

lemma precompute_loop_size:
  assumes "0 \<le> cache_size s" "cache_size s \<le> MAX_CACHE_SIZE"
    and "precompute_loop ds s = Some s'"
  shows "0 \<le> cache_size s' \<and> cache_size s' \<le> MAX_CACHE_SIZE"
  using assms
proof (induction ds arbitrary: s)
  case Nil
  then show ?case by simp
next
  case (Cons d ds)
  show ?case
  proof (cases "cache_size s < MAX_CACHE_SIZE")
    case True
    with Cons.prems(3) obtain fs s1 where
      f: "prime_factorize_optimized d s = Some (fs, s1)"
      and b: "precompute_loop ds s1 = Some s'"
      by (auto split: option.splits)
    from factorize_size [OF Cons.prems(1,2) f] show ?thesis using Cons.IH [OF _ _ b] by simp
  next
    case False
    then show ?thesis using Cons.prems by simp
  qed
qed

section \<open>Degenerate inputs\<close>

text \<open>
  C9.  For \<open>n \<le> 1\<close> (that is \<open>n = 0\<close> or \<open>n = 1\<close>) \<open>prime_factorize_optimized\<close> returns the
  empty sequence and leaves the cache, its contents and its size, exactly as it was.
\<close>

theorem factorize_degenerate:
  "n \<le> 1 \<Longrightarrow> prime_factorize_optimized n s = Some ([], s)"
  by (simp add: prime_factorize_optimized_def)

theorem factorize_degenerate_witness:
  "(0::nat) \<le> 1 \<and> (1::nat) \<le> 1
   \<and> prime_factorize_optimized 0 initial_cache = Some ([], initial_cache)
   \<and> prime_factorize_optimized 1 initial_cache = Some ([], initial_cache)"
proof -
  have h0: "(0::nat) \<le> 1" and h1: "(1::nat) \<le> 1" by simp_all
  show ?thesis
    using h0 h1 factorize_degenerate [OF h0, of initial_cache]
      factorize_degenerate [OF h1, of initial_cache]
    by simp
qed

section \<open>Product of the factors\<close>

text \<open>
  C1.  The claim: for every \<open>n\<close> in \<open>[2, 2^32 - 1]\<close> the product of the sequence returned
  by \<open>prime_factorize_optimized\<close> is \<open>n\<close>, and 12 yields \<open>[2, 2, 3]\<close>.  The code does
  otherwise: on the empty cache, 12 yields \<open>[2, 2, 3, 3]\<close>, of product 36.  When the
  small-prime loop leaves through \<open>p * p > n\<close> it pushes the cofactor \<open>n\<close> and breaks
  without setting \<open>n\<close> to 1, so the final \<open>if (n > 1)\<close> pushes the same cofactor again.
\<close>

theorem factorize_12_duplicates_cofactor:
  "map_option fst (prime_factorize_optimized 12 initial_cache) = Some [2, 2, 3, 3]
   \<and> map_option (prod_list \<circ> fst) (prime_factorize_optimized 12 initial_cache) = Some 36"
  by (simp add: eval_defs)

section \<open>Wheel factorizer against trial division\<close>

text \<open>
  C2.  The claim: \<open>wheel_factorize\<close> returns the same multiset of factors as
  \<open>prime_factorize_optimized\<close> on an empty cache.  The code does otherwise at 169: the
  wheel table holds offsets from 7 but is added as increments, so the candidates are
  7, 11, 17, 27, ... and 13 is never tried; the wheel returns \<open>{169}\<close> where trial
  division returns \<open>{13, 13}\<close>.
\<close>

theorem wheel_169_misses_13:
  "map_option mset (wheel_factorize 169) = Some {#169#}
   \<and> map_option (mset \<circ> fst) (prime_factorize_optimized 169 initial_cache) = Some {#13, 13#}"
  by (simp add: eval_defs wheel_factorize_def wheel_loop.simps wheel_def wheel_size_def)

section \<open>Integer square root\<close>




section \<open>Cache size after the warm-up\<close>

lemma precompute_initial_size:
  "map_option cache_size (precompute_common_dimensions initial_cache) = Some 27"
  by (simp add: eval_defs precompute_common_dimensions_def common_dims_def)

text \<open>
  The table of common dimensions has 28 distinct values, but the warm-up from the empty
  cache leaves 27 entries: the claim of a size of at least the number of distinct values
  fails.
\<close>

theorem precompute_size_counterexample:
  "map_option (fst \<circ> get_cache_stats) (precompute_common_dimensions initial_cache) = Some 27
   \<and> \<not> int (length (remdups common_dims)) \<le> 27"
  using precompute_initial_size
  by (auto simp: get_cache_stats_def common_dims_def)

text \<open>
  C3 (amended).  Starting from the empty cache, \<open>precompute_common_dimensions\<close> followed by
  \<open>get_cache_stats\<close> yields the size 27 (and the capacity), the number of distinct table
  values greater than 1: the table value 1 is returned without touching the cache.  The
  binding's return value is that resulting cache size.
\<close>

theorem precompute_size_27:
  "map_option (\<lambda>(r, s). (r, get_cache_stats s)) (lua_precompute_common_dimensions initial_cache)
     = Some (27, 27, MAX_CACHE_SIZE)
   \<and> length (filter (\<lambda>d. 1 < d) (remdups common_dims)) = 27"
  using precompute_initial_size
  by (auto simp: get_cache_stats_def lua_precompute_common_dimensions_def common_dims_def
      split: option.splits)

section \<open>Order of the factors\<close>

text \<open>
  C4.  For every 32-bit \<open>n\<close> and every reachable cache state, \<open>prime_factorize_optimized\<close>
  returns, and the sequence it returns is non-decreasing.
\<close>

theorem factorize_sorted:
  assumes "reachable s" "n < 4294967296"
  shows "\<exists>fs s'. prime_factorize_optimized n s = Some (fs, s') \<and> sorted fs"
proof -
  have ok: "cache_ok s" using assms(1) by (rule reachable_cache_ok)
  from factorize_cases [OF assms(2), of s] show ?thesis
  proof (elim disjE conjE exE)
    assume "n \<le> 1" "prime_factorize_optimized n s = Some ([], s)"
    then show ?thesis by simp
  next
    fix fs assume "2 \<le> n" and hit: "check_cache n s = Some fs"
      and r: "prime_factorize_optimized n s = Some (fs, s)"
    from check_cache_hit [OF ok hit] have td: "trial_division n = Some fs" by simp
    from trial_division_spec [OF \<open>2 \<le> n\<close> assms(2)] td have "sorted fs" by auto
    then show ?thesis using r by blast
  next
    fix fs assume "sorted fs" "prime_factorize_optimized n s = Some (fs, add_to_cache n fs s)"
    then show ?thesis by blast
  qed
qed

theorem factorize_sorted_witness:
  "reachable initial_cache \<and> (12::nat) < 4294967296
   \<and> (\<exists>fs s'. prime_factorize_optimized 12 initial_cache = Some (fs, s') \<and> sorted fs)"
proof -
  have h: "(12::nat) < 4294967296" by simp
  show ?thesis using reach_init h factorize_sorted [OF reach_init h] by simp
qed

section \<open>Number of factors\<close>

text \<open>
  C10.  For every 32-bit \<open>n\<close> and every reachable cache state, \<open>prime_factorize_optimized\<close>
  returns at most 32 factors, fewer than \<open>MAX_FACTORS = 64\<close>; hence \<open>add_to_cache\<close> never
  drops such a sequence for its length: it leaves the cache unchanged exactly when the
  table is at capacity.  The bound 32 is attained at \<open>3 * 2^30\<close>.
\<close>

theorem factor_count_bound:
  assumes "reachable s" "n < 4294967296"
  shows "\<exists>fs s'. prime_factorize_optimized n s = Some (fs, s') \<and> length fs \<le> 32
           \<and> int (length fs) < MAX_FACTORS
           \<and> (add_to_cache n fs s = s \<longleftrightarrow> MAX_CACHE_SIZE \<le> cache_size s)"
proof -
  have ok: "cache_ok s" using assms(1) by (rule reachable_cache_ok)
  have drop: "add_to_cache n fs s = s \<longleftrightarrow> MAX_CACHE_SIZE \<le> cache_size s"
    if "length fs \<le> 32" for fs
  proof
    assume eq: "add_to_cache n fs s = s"
    show "MAX_CACHE_SIZE \<le> cache_size s"
    proof (rule ccontr)
      assume "\<not> MAX_CACHE_SIZE \<le> cache_size s"
      then have "cache_size (add_to_cache n fs s) = cache_size s + 1"
        using that by (simp add: add_to_cache_def MAX_FACTORS_def)
      then show False using eq by simp
    qed
  next
    assume "MAX_CACHE_SIZE \<le> cache_size s"
    then show "add_to_cache n fs s = s" by (simp add: add_to_cache_def)
  qed
  have fin: "\<exists>fs s'. prime_factorize_optimized n s = Some (fs, s') \<and> length fs \<le> 32
           \<and> int (length fs) < MAX_FACTORS
           \<and> (add_to_cache n fs s = s \<longleftrightarrow> MAX_CACHE_SIZE \<le> cache_size s)"
    if "prime_factorize_optimized n s = Some (fs, s')" "length fs \<le> 32" for fs s'
    using that drop [OF that(2)] by (intro exI [of _ fs] exI [of _ s']) (simp add: MAX_FACTORS_def)
  from factorize_cases [OF assms(2), of s] show ?thesis
  proof (elim disjE conjE exE)
    assume "n \<le> 1" "prime_factorize_optimized n s = Some ([], s)"
    then show ?thesis by (intro fin [of "[]" s]) simp_all
  next
    fix fs assume "2 \<le> n" and hit: "check_cache n s = Some fs"
      and r: "prime_factorize_optimized n s = Some (fs, s)"
    from check_cache_hit [OF ok hit] have td: "trial_division n = Some fs" by simp
    from trial_division_spec [OF \<open>2 \<le> n\<close> assms(2)] td have "length fs \<le> 32" by auto
    then show ?thesis using r by (intro fin [of fs s])
  next
    fix fs assume "length fs \<le> 32" "prime_factorize_optimized n s = Some (fs, add_to_cache n fs s)"
    then show ?thesis by (intro fin [of fs "add_to_cache n fs s"])
  qed
qed

theorem factor_count_bound_witness:
  "reachable initial_cache \<and> (3221225472::nat) < 4294967296
   \<and> (\<exists>fs s'. prime_factorize_optimized 3221225472 initial_cache = Some (fs, s')
         \<and> length fs \<le> 32 \<and> int (length fs) < MAX_FACTORS
         \<and> (add_to_cache 3221225472 fs initial_cache = initial_cache
              \<longleftrightarrow> MAX_CACHE_SIZE \<le> cache_size initial_cache))
   \<and> map_option (length \<circ> fst) (prime_factorize_optimized 3221225472 initial_cache) = Some 32"
proof -
  have h: "(3221225472::nat) < 4294967296" by simp
  have e: "map_option (length \<circ> fst) (prime_factorize_optimized 3221225472 initial_cache) = Some 32"
    by (simp add: eval_defs)
  show ?thesis using reach_init h e factor_count_bound [OF reach_init h] by simp
qed

section \<open>Cache entries and cache hits\<close>

text \<open>
  C5.  In every reachable cache state, every entry below \<open>cache_size\<close> holds the sequence
  that \<open>prime_factorize_optimized\<close> computes for the entry's number on the empty cache;
  hence a cache hit returns, with the cache unchanged, the sequence a fresh computation
  produces.
\<close>

theorem cache_entries_fresh:
  assumes "reachable s"
  shows "(\<forall>i. 0 \<le> i \<and> i < cache_size s \<longrightarrow>
            map_option fst (prime_factorize_optimized (number (factor_cache s i)) initial_cache)
              = Some (take (factor_count (factor_cache s i)) (factors (factor_cache s i))))
       \<and> (\<forall>n fs. check_cache n s = Some fs \<longrightarrow>
            prime_factorize_optimized n s = Some (fs, s)
            \<and> map_option fst (prime_factorize_optimized n initial_cache) = Some fs)"
proof (intro conjI allI impI)
  have ok: "cache_ok s" using assms by (rule reachable_cache_ok)
  {
    fix i assume i: "0 \<le> i \<and> i < cache_size s"
    then have "2 \<le> number (factor_cache s i)"
      and "trial_division (number (factor_cache s i)) =
          Some (take (factor_count (factor_cache s i)) (factors (factor_cache s i)))"
      using ok unfolding cache_ok_def by blast+
    then show "map_option fst (prime_factorize_optimized (number (factor_cache s i)) initial_cache)
              = Some (take (factor_count (factor_cache s i)) (factors (factor_cache s i)))"
      by (simp add: fresh_factorize)
  }
  {
    fix n fs assume hit: "check_cache n s = Some fs"
    from check_cache_hit [OF ok hit] have n: "2 \<le> n" and td: "trial_division n = Some fs"
      by simp_all
    show "prime_factorize_optimized n s = Some (fs, s)"
      using n hit by (simp add: prime_factorize_optimized_def)
    show "map_option fst (prime_factorize_optimized n initial_cache) = Some fs"
      using n td by (simp add: fresh_factorize)
  }
qed

theorem cache_entries_fresh_witness:
  "reachable (add_to_cache 12 [2, 2, 3, 3] initial_cache)
   \<and> check_cache 12 (add_to_cache 12 [2, 2, 3, 3] initial_cache) = Some [2, 2, 3, 3]
   \<and> prime_factorize_optimized 12 (add_to_cache 12 [2, 2, 3, 3] initial_cache)
       = Some ([2, 2, 3, 3], add_to_cache 12 [2, 2, 3, 3] initial_cache)
   \<and> map_option fst (prime_factorize_optimized 12 initial_cache) = Some [2, 2, 3, 3]"
proof -
  have f: "prime_factorize_optimized 12 initial_cache
             = Some ([2, 2, 3, 3], add_to_cache 12 [2, 2, 3, 3] initial_cache)"
    by (simp add: eval_defs)
  have r: "reachable (add_to_cache 12 [2, 2, 3, 3] initial_cache)"
    by (rule reach_factorize [OF reach_init _ f]) simp
  have c: "check_cache 12 (add_to_cache 12 [2, 2, 3, 3] initial_cache) = Some [2, 2, 3, 3]"
    by (simp add: eval_defs)
  show ?thesis using r c cache_entries_fresh [OF r] by blast
qed

section \<open>Capacity of the cache\<close>

text \<open>
  C7.  \<open>0 \<le> cache_size \<le> MAX_CACHE_SIZE\<close> is preserved by every operation
  (\<open>add_to_cache\<close>, \<open>prime_factorize_optimized\<close>, the batch driver, the warm-up and the
  clear), each of which returns on 32-bit inputs.  At capacity \<open>add_to_cache\<close> changes
  nothing, and \<open>prime_factorize_optimized\<close> leaves the cache unchanged and still
  returns the factorization: on a miss, and in every reachable state, the sequence it
  returns is the one computed on the empty cache; on a hit it is the stored sequence.
\<close>

theorem cache_capacity_invariant:
  assumes "0 \<le> cache_size s" "cache_size s \<le> MAX_CACHE_SIZE"
    and "n < 4294967296" "list_all (\<lambda>x. x < 4294967296) xs"
  shows "(0 \<le> cache_size (add_to_cache n fs s)
          \<and> cache_size (add_to_cache n fs s) \<le> MAX_CACHE_SIZE)
       \<and> (cache_size s = MAX_CACHE_SIZE \<longrightarrow> add_to_cache n fs s = s)
       \<and> (\<exists>gs s'. prime_factorize_optimized n s = Some (gs, s')
             \<and> 0 \<le> cache_size s' \<and> cache_size s' \<le> MAX_CACHE_SIZE
             \<and> (cache_size s = MAX_CACHE_SIZE \<longrightarrow> s' = s)
             \<and> (check_cache n s = None \<or> reachable s \<longrightarrow>
                  map_option fst (prime_factorize_optimized n initial_cache) = Some gs)
             \<and> (2 \<le> n \<longrightarrow> (\<forall>hs. check_cache n s = Some hs \<longrightarrow> gs = hs)))
       \<and> (\<exists>out s'. lua_batch_prime_factorize xs s = Some (out, s')
             \<and> 0 \<le> cache_size s' \<and> cache_size s' \<le> MAX_CACHE_SIZE)
       \<and> (\<exists>s'. precompute_common_dimensions s = Some s'
             \<and> 0 \<le> cache_size s' \<and> cache_size s' \<le> MAX_CACHE_SIZE)
       \<and> (0 \<le> cache_size (clear_factorization_cache s)
          \<and> cache_size (clear_factorization_cache s) \<le> MAX_CACHE_SIZE)"
proof (intro conjI)
  show "0 \<le> cache_size (add_to_cache n fs s)"
    and "cache_size (add_to_cache n fs s) \<le> MAX_CACHE_SIZE"
    using add_to_cache_size [OF assms(1,2)] by simp_all
  show "cache_size s = MAX_CACHE_SIZE \<longrightarrow> add_to_cache n fs s = s"
    by (simp add: add_to_cache_full)
  show "\<exists>gs s'. prime_factorize_optimized n s = Some (gs, s')
             \<and> 0 \<le> cache_size s' \<and> cache_size s' \<le> MAX_CACHE_SIZE
             \<and> (cache_size s = MAX_CACHE_SIZE \<longrightarrow> s' = s)
             \<and> (check_cache n s = None \<or> reachable s \<longrightarrow>
                  map_option fst (prime_factorize_optimized n initial_cache) = Some gs)
             \<and> (2 \<le> n \<longrightarrow> (\<forall>hs. check_cache n s = Some hs \<longrightarrow> gs = hs))"
  proof -
    from factorize_cases [OF assms(3), of s] obtain gs s' where
      f: "prime_factorize_optimized n s = Some (gs, s')"
      and alt: "s' = s \<or> s' = add_to_cache n gs s"
      and miss: "check_cache n s = None \<longrightarrow> (n \<le> 1 \<and> gs = []) \<or> (2 \<le> n \<and> trial_division n = Some gs)"
      and hit: "2 \<le> n \<longrightarrow> (\<forall>hs. check_cache n s = Some hs \<longrightarrow> gs = hs)"
      by fastforce
    have full: "cache_size s = MAX_CACHE_SIZE \<longrightarrow> s' = s"
      using alt by (auto simp: add_to_cache_full)
    have fresh1: "map_option fst (prime_factorize_optimized n initial_cache) = Some gs"
      if "check_cache n s = None"
      using miss that by (auto simp: fresh_factorize)
    have fresh2: "map_option fst (prime_factorize_optimized n initial_cache) = Some gs"
      if "reachable s"
      using factorize_cache_ok [OF reachable_cache_ok [OF that] assms(3) f] by simp
    show ?thesis
      using f factorize_size [OF assms(1,2) f] full fresh1 fresh2 hit
      by (intro exI [of _ gs] exI [of _ s']) blast
  qed
  show "\<exists>out s'. lua_batch_prime_factorize xs s = Some (out, s')
             \<and> 0 \<le> cache_size s' \<and> cache_size s' \<le> MAX_CACHE_SIZE"
  proof -
    from batch_total [OF assms(4), of s] obtain out s' where
      b: "lua_batch_prime_factorize xs s = Some (out, s')" by blast
    then show ?thesis using batch_size [OF assms(1,2) b] by blast
  qed
  show "\<exists>s'. precompute_common_dimensions s = Some s'
             \<and> 0 \<le> cache_size s' \<and> cache_size s' \<le> MAX_CACHE_SIZE"
  proof -
    from precompute_loop_total [OF common_dims_u32, of s] obtain s' where
      p: "precompute_loop common_dims s = Some s'" by blast
    then show ?thesis using precompute_loop_size [OF assms(1,2) p]
      by (simp add: precompute_common_dimensions_def)
  qed
  show "0 \<le> cache_size (clear_factorization_cache s)"
    and "cache_size (clear_factorization_cache s) \<le> MAX_CACHE_SIZE"
    by (simp_all add: clear_factorization_cache_def MAX_CACHE_SIZE_def)
qed

theorem cache_capacity_invariant_witness:
  "0 \<le> cache_size (initial_cache\<lparr>cache_size := 1000\<rparr>)
   \<and> cache_size (initial_cache\<lparr>cache_size := 1000\<rparr>) \<le> MAX_CACHE_SIZE
   \<and> (12::nat) < 4294967296 \<and> list_all (\<lambda>x. x < 4294967296) [12, 60::nat]
   \<and> check_cache 12 (initial_cache\<lparr>cache_size := 1000\<rparr>) = None
   \<and> add_to_cache 12 [2, 2, 3, 3] (initial_cache\<lparr>cache_size := 1000\<rparr>)
       = initial_cache\<lparr>cache_size := 1000\<rparr>
   \<and> prime_factorize_optimized 12 (initial_cache\<lparr>cache_size := 1000\<rparr>)
       = Some ([2, 2, 3, 3], initial_cache\<lparr>cache_size := 1000\<rparr>)
   \<and> (\<exists>out s'. lua_batch_prime_factorize [12, 60] (initial_cache\<lparr>cache_size := 1000\<rparr>)
                   = Some (out, s') \<and> cache_size s' \<le> MAX_CACHE_SIZE)
   \<and> (\<exists>s'. precompute_common_dimensions (initial_cache\<lparr>cache_size := 1000\<rparr>) = Some s'
         \<and> cache_size s' \<le> MAX_CACHE_SIZE)"
proof -
  let ?s = "initial_cache\<lparr>cache_size := 1000\<rparr>"
  have h1: "0 \<le> cache_size ?s" and h2: "cache_size ?s \<le> MAX_CACHE_SIZE"
    and h3: "(12::nat) < 4294967296" and h4: "list_all (\<lambda>x. x < 4294967296) [12, 60::nat]"
    and full: "cache_size ?s = MAX_CACHE_SIZE"
    by (simp_all add: MAX_CACHE_SIZE_def)
  have miss: "check_cache 12 ?s = None"
    unfolding check_cache_def
    by (rule check_cache_from_None) (simp add: initial_cache_def zero_entry_def)
  have fresh: "map_option fst (prime_factorize_optimized 12 initial_cache) = Some [2, 2, 3, 3]"
    by (simp add: eval_defs)
  from cache_capacity_invariant [OF h1 h2 h3 h4, of "[2, 2, 3, 3]"] full miss fresh
  have "prime_factorize_optimized 12 ?s = Some ([2, 2, 3, 3], ?s)" by auto
  then show ?thesis
    using h1 h2 h3 h4 full miss cache_capacity_invariant [OF h1 h2 h3 h4, of "[2, 2, 3, 3]"]
    by blast
qed

section \<open>Batch factorization\<close>

text \<open>
  C8.  For every sequence \<open>xs\<close> of 32-bit inputs the batch driver returns a sequence of the
  same length whose \<open>i\<close>-th element is what \<open>prime_factorize_optimized\<close> returns for
  \<open>xs ! i\<close> in the cache state left by the inputs before it; from a reachable cache
  state that is also what the factorizer returns for \<open>xs ! i\<close> on the empty cache.
\<close>

theorem batch_factorize_pointwise:
  assumes "list_all (\<lambda>x. x < 4294967296) xs"
  shows "\<exists>out s'. lua_batch_prime_factorize xs s = Some (out, s') \<and> length out = length xs \<and>
           (\<forall>i<length xs. \<exists>si si'.
              lua_batch_prime_factorize (take i xs) s = Some (take i out, si)
              \<and> prime_factorize_optimized (xs ! i) si = Some (out ! i, si')) \<and>
           (reachable s \<longrightarrow>
              (\<forall>i<length xs.
                 map_option fst (prime_factorize_optimized (xs ! i) initial_cache)
                   = Some (out ! i)))"
proof -
  from batch_spec [OF assms, of s] obtain out s' where
    b: "lua_batch_prime_factorize xs s = Some (out, s')" and len: "length out = length xs"
    and pt: "\<forall>i<length xs. \<exists>si si'.
              lua_batch_prime_factorize (take i xs) s = Some (take i out, si)
              \<and> prime_factorize_optimized (xs ! i) si = Some (out ! i, si')
              \<and> (cache_ok s \<longrightarrow> cache_ok si)"
    by blast
  have "map_option fst (prime_factorize_optimized (xs ! i) initial_cache) = Some (out ! i)"
    if r: "reachable s" and i: "i < length xs" for i
  proof -
    from pt i obtain si si' where
      f: "prime_factorize_optimized (xs ! i) si = Some (out ! i, si')"
      and "cache_ok s \<longrightarrow> cache_ok si" by blast
    then have ok: "cache_ok si" using reachable_cache_ok [OF r] by simp
    have "xs ! i < 4294967296" using assms i by (simp add: list_all_length)
    from factorize_cache_ok [OF ok this f] show ?thesis by simp
  qed
  then show ?thesis using b len pt by (intro exI [of _ out] exI [of _ s']) blast
qed

theorem batch_factorize_pointwise_witness:
  "list_all (\<lambda>x. x < 4294967296) [12, 60::nat] \<and> reachable initial_cache
   \<and> (\<exists>out s'. lua_batch_prime_factorize [12, 60] initial_cache = Some (out, s')
         \<and> length out = length [12, 60::nat]
         \<and> (\<forall>i<length [12, 60::nat].
               map_option fst (prime_factorize_optimized ([12, 60] ! i) initial_cache)
                 = Some (out ! i)))
   \<and> map_option fst (lua_batch_prime_factorize [12, 60] initial_cache)
       = Some [[2, 2, 3, 3], [2, 2, 3, 5, 5]]"
proof -
  have h: "list_all (\<lambda>x. x < 4294967296) [12, 60::nat]" by simp
  have e: "map_option fst (lua_batch_prime_factorize [12, 60] initial_cache)
             = Some [[2, 2, 3, 3], [2, 2, 3, 5, 5]]"
    by (simp add: eval_defs)
  show ?thesis
    using h e reach_init batch_factorize_pointwise [OF h, of initial_cache] by blast
qed

end
